theory Spec2Isabelle
  imports Complex_Main "HOL-Library.Multiset"
begin

section \<open>Exceptions\<close>

text \<open>
  The Python exceptions that the modelled functions can raise. A function that can raise
  returns \<open>error + 'a\<close>, with \<open>Inl\<close> for the exception.
\<close>

datatype error = ValueError | ZeroDivisionError | IndexError

section \<open>Series terms: \<open>compute_pi_terms\<close>\<close>

text \<open>
  \<open>math.factorial\<close> raises \<open>ValueError\<close> on a negative argument.
\<close>

definition factorial :: "int \<Rightarrow> error + int" where
  "factorial n = (if n < 0 then Inl ValueError else Inr (fact (nat n)))"

definition C :: int where
  "C = 640320 ^ 3"

text \<open>
  The running fraction \<open>(total_num, total_den)\<close> and the merge fold of \<open>main\<close> both add a
  fraction \<open>c / d\<close> to \<open>a / b\<close> by \<open>(a * d + c * b) / (b * d)\<close> and divide by the gcd when
  it exceeds 1.
\<close>

definition add_reduce :: "int \<times> int \<Rightarrow> int \<times> int \<Rightarrow> int \<times> int" where
  "add_reduce s t =
     (let new_num = fst s * snd t + fst t * snd s;
          new_den = snd s * snd t;
          gcd_val = gcd \<bar>new_num\<bar> new_den
      in if gcd_val > 1 then (new_num div gcd_val, new_den div gcd_val)
         else (new_num, new_den))"

record recurrence_state =
  fact_6k :: int
  fact_3k :: int
  fact_k_cubed :: int
  C_power :: int
  linear_term :: int
  total_num :: int
  total_den :: int

text \<open>The state before the loop; for \<open>start \<noteq> 0\<close> the factorials are computed once.\<close>

definition init_state :: "int \<Rightarrow> error + recurrence_state" where
  "init_state start =
     (if start = 0
      then Inr \<lparr>fact_6k = 1, fact_3k = 1, fact_k_cubed = 1, C_power = 1,
                linear_term = 13591409, total_num = 0, total_den = 1\<rparr>
      else (case factorial (6 * start) of Inl e \<Rightarrow> Inl e | Inr f6 \<Rightarrow>
           (case factorial (3 * start) of Inl e \<Rightarrow> Inl e | Inr f3 \<Rightarrow>
           (case factorial start of Inl e \<Rightarrow> Inl e | Inr fact_k \<Rightarrow>
              Inr \<lparr>fact_6k = f6, fact_3k = f3, fact_k_cubed = fact_k ^ 3,
                    C_power = C ^ nat start,
                    linear_term = 545140134 * start + 13591409,
                    total_num = 0, total_den = 1\<rparr>))))"

text \<open>The incremental update of the recurring quantities, done when \<open>k > start\<close>.\<close>

definition advance :: "int \<Rightarrow> recurrence_state \<Rightarrow> recurrence_state" where
  "advance k s =
     s\<lparr>fact_6k := foldl (\<lambda>f i. f * i) (fact_6k s) [6 * k - 5..6 * k],
       fact_3k := foldl (\<lambda>f i. f * i) (fact_3k s) [3 * k - 2..3 * k],
       fact_k_cubed := fact_k_cubed s * k ^ 3,
       C_power := C_power s * C,
       linear_term := linear_term s + 545140134\<rparr>"

text \<open>One iteration of the loop over \<open>k\<close>.\<close>

definition term_step :: "int \<Rightarrow> recurrence_state \<Rightarrow> int \<Rightarrow> recurrence_state" where
  "term_step start s k =
     (let s1 = (if k > start then advance k s else s);
          sign = (if k mod 2 = 0 then 1 else - 1);
          numerator = sign * fact_6k s1 * linear_term s1;
          denominator = fact_3k s1 * fact_k_cubed s1 * C_power s1
      in if numerator \<noteq> 0
         then (let r = add_reduce (total_num s1, total_den s1) (numerator, denominator)
               in s1\<lparr>total_num := fst r, total_den := snd r\<rparr>)
         else s1)"

definition compute_pi_terms :: "int \<Rightarrow> int \<Rightarrow> error + int \<times> int" where
  "compute_pi_terms start end' =
     (case init_state start of
        Inl e \<Rightarrow> Inl e
      | Inr s0 \<Rightarrow>
          (let s = foldl (term_step start) s0 [start..end']
           in Inr (total_num s, total_den s)))"

text \<open>
  The reference the incremental loop is compared with: every term computed on its own from
  full factorials, \<open>term(k) = (-1)^k (6k)! (545140134 k + 13591409) / ((3k)! (k!)^3 C^k)\<close>,
  as an integer pair and as a rational number, and the same fraction accumulation over the
  range.
\<close>

definition term_from_scratch :: "int \<Rightarrow> int \<times> int" where
  "term_from_scratch k =
     ((if k mod 2 = 0 then 1 else - 1) * fact (nat (6 * k)) * (545140134 * k + 13591409),
      fact (nat (3 * k)) * fact (nat k) ^ 3 * C ^ nat k)"

definition sum_from_scratch :: "int \<Rightarrow> int \<Rightarrow> int \<times> int" where
  "sum_from_scratch start end' =
     foldl (\<lambda>acc k. if fst (term_from_scratch k) \<noteq> 0
                      then add_reduce acc (term_from_scratch k) else acc)
       (0, 1) [start..end']"

definition chudnovsky_term :: "nat \<Rightarrow> rat" where
  "chudnovsky_term k =
     (- 1) ^ k * of_nat (fact (6 * k)) * (545140134 * of_nat k + 13591409)
       / (of_nat (fact (3 * k)) * (of_nat (fact k)) ^ 3 * (640320 ^ 3) ^ k)"

text \<open>The recurring quantities hold the values that belong to index \<open>k\<close>.\<close>

definition state_at :: "int \<Rightarrow> recurrence_state \<Rightarrow> bool" where
  "state_at k s \<longleftrightarrow>
     fact_6k s = fact (nat (6 * k)) \<and> fact_3k s = fact (nat (3 * k)) \<and>
     fact_k_cubed s = fact (nat k) ^ 3 \<and> C_power s = C ^ nat k \<and>
     linear_term s = 545140134 * k + 13591409"

section \<open>Partitioning and merging in \<open>main\<close>\<close>

text \<open>
  \<open>chunk_size = (total_terms + num_cores - 1) // num_cores\<close> raises on \<open>num_cores = 0\<close>;
  \<open>range(num_cores)\<close> is \<open>[0..num_cores - 1]\<close>.
\<close>

definition ranges :: "int \<Rightarrow> int \<Rightarrow> error + (int \<times> int) list" where
  "ranges total_terms num_cores =
     (if num_cores = 0 then Inl ZeroDivisionError
      else (let chunk_size = (total_terms + num_cores - 1) div num_cores
            in Inr (map (\<lambda>i. (i * chunk_size, min ((i + 1) * chunk_size - 1) total_terms))
                      [0..num_cores - 1])))"

text \<open>The indices \<open>k\<close> that \<open>compute_pi_terms\<close> visits for a range: \<open>range(start, end + 1)\<close>.\<close>

definition range_indices :: "int \<times> int \<Rightarrow> int set" where
  "range_indices r = set [fst r..snd r]"

text \<open>
  The merge of the workers' results: \<open>results[0]\<close> raises \<open>IndexError\<close> on an empty list,
  the others are added from left to right.
\<close>

definition merge_results :: "(int \<times> int) list \<Rightarrow> error + int \<times> int" where
  "merge_results results =
     (case results of
        [] \<Rightarrow> Inl IndexError
      | r # rs \<Rightarrow> Inr (foldl add_reduce r rs))"

section \<open>Square root: \<open>high_precision_sqrt\<close>\<close>

text \<open>
  Both iterations may run forever, so they are partial functions into \<open>option\<close>: \<open>None\<close> is a
  loop that never returns. \<open>n // x\<close> raises \<open>ZeroDivisionError\<close> when \<open>x = 0\<close>.
  The first loop is \<open>while True: y = (x + n // x) // 2; if y >= x: break; x = y\<close>.
\<close>

partial_function (option) sqrt_prepass :: "int \<Rightarrow> int \<Rightarrow> (error + int) option" where
  "sqrt_prepass n x =
     (if x = 0 then Some (Inl ZeroDivisionError)
      else (let y = (x + n div x) div 2
            in if y \<ge> x then Some (Inr x) else sqrt_prepass n y))"

text \<open>The second loop is \<open>while x != prev_x: prev_x = x; x = (x + scaled_n // x) // 2\<close>.\<close>

partial_function (option) sqrt_scaled_loop :: "int \<Rightarrow> int \<Rightarrow> int \<Rightarrow> (error + int) option" where
  "sqrt_scaled_loop scaled_n x prev_x =
     (if x \<noteq> prev_x
      then (if x = 0 then Some (Inl ZeroDivisionError)
            else sqrt_scaled_loop scaled_n ((x + scaled_n div x) div 2) x)
      else Some (Inr x))"

text \<open>
  The precision is a natural number: for a negative precision Python's \<open>10 ** (2 * precision)\<close>
  is a float, which is outside this model.
\<close>

definition high_precision_sqrt :: "int \<Rightarrow> nat \<Rightarrow> (error + int) option" where
  "high_precision_sqrt n precision =
     (let x = n div 2;
          x = (if x = 0 then 1 else x)
      in case sqrt_prepass n x of
           None \<Rightarrow> None
         | Some (Inl e) \<Rightarrow> Some (Inl e)
         | Some (Inr x) \<Rightarrow>
             (let scaled_n = n * 10 ^ (2 * precision);
                  x = scaled_n div 2;
                  x = (if x = 0 then 1 else x)
              in sqrt_scaled_loop scaled_n x (- 1)))"

section \<open>Decimal strings\<close>

text \<open>\<open>str\<close> of an integer: decimal digits, most significant first, with a minus sign.\<close>

definition digit_char :: "nat \<Rightarrow> char" where
  "digit_char d = char_of (48 + d)"

fun str_nat :: "nat \<Rightarrow> string" where
  "str_nat n = (if n < 10 then [digit_char n] else str_nat (n div 10) @ [digit_char (n mod 10)])"

declare str_nat.simps [simp del]

definition str_int :: "int \<Rightarrow> string" where
  "str_int i = (if i < 0 then CHR ''-'' # str_nat (nat (- i)) else str_nat (nat i))"

text \<open>
  \<open>int\<close> of a string. The strings parsed in \<open>main\<close> are slices of the output of
  \<open>high_precision_division\<close>; the model reads a non-empty string of ASCII digits and raises
  \<open>ValueError\<close> on the empty string. It raises on every other string as well, where Python
  also accepts a sign, surrounding blanks and underscores.
\<close>

definition is_digit :: "char \<Rightarrow> bool" where
  "is_digit c \<longleftrightarrow> 48 \<le> (of_char c :: nat) \<and> (of_char c :: nat) \<le> 57"

definition digit_value :: "char \<Rightarrow> nat" where
  "digit_value c = of_char c - 48"

definition digits_value :: "string \<Rightarrow> nat" where
  "digits_value s = foldl (\<lambda>v c. 10 * v + digit_value c) 0 s"

definition int_of_str :: "string \<Rightarrow> error + int" where
  "int_of_str s =
     (if s \<noteq> [] \<and> list_all is_digit s then Inr (int (digits_value s)) else Inl ValueError)"

text \<open>\<open>str.zfill\<close>: zeros on the left up to the width, after a leading sign.\<close>

definition zfill :: "string \<Rightarrow> nat \<Rightarrow> string" where
  "zfill s width =
     (case s of
        [] \<Rightarrow> replicate width (CHR ''0'')
      | c # rest \<Rightarrow>
          if c = CHR ''+'' \<or> c = CHR ''-''
          then c # replicate (width - length s) (CHR ''0'') @ rest
          else replicate (width - length s) (CHR ''0'') @ s)"

section \<open>Long division: \<open>high_precision_division\<close>\<close>

text \<open>
  The \<open>for\<close> loop with its \<open>break\<close>, by recursion on the number of iterations left; it
  returns \<open>decimal_digits\<close>, a list of strings.
\<close>

fun division_loop :: "nat \<Rightarrow> int \<Rightarrow> int \<Rightarrow> string list \<Rightarrow> string list" where
  "division_loop 0 remainder denominator decimal_digits = decimal_digits"
| "division_loop (Suc n) remainder denominator decimal_digits =
     (if remainder = 0 then decimal_digits
      else (let remainder = remainder * 10;
                digit = remainder div denominator
            in division_loop n (remainder mod denominator) denominator
                 (decimal_digits @ [str_int digit])))"

text \<open>\<open>while len(decimal_digits) < digits + 1: decimal_digits.append('0')\<close>\<close>

function pad_loop :: "string list \<Rightarrow> int \<Rightarrow> string list" where
  "pad_loop decimal_digits digits =
     (if int (length decimal_digits) < digits + 1
      then pad_loop (decimal_digits @ [''0'']) digits
      else decimal_digits)"
  by pat_completeness auto
termination
  by (relation "measure (\<lambda>(decimal_digits, digits). nat (digits + 1 - int (length decimal_digits)))")
     auto

declare pad_loop.simps [simp del]

definition high_precision_division :: "int \<Rightarrow> int \<Rightarrow> int \<Rightarrow> error + string" where
  "high_precision_division numerator denominator digits =
     (if denominator = 0 then Inl ZeroDivisionError
      else (let remainder = numerator mod denominator;
                decimal_digits = division_loop (nat (digits + 10)) remainder denominator []
            in Inr (concat (pad_loop decimal_digits digits))))"

text \<open>
  The digit at position \<open>j\<close> (from 0) of the decimal expansion of the fractional part of
  \<open>numerator / denominator\<close>, the integer part being the floor.
\<close>

definition fraction_digit :: "int \<Rightarrow> int \<Rightarrow> nat \<Rightarrow> int" where
  "fraction_digit numerator denominator j =
     (10 ^ (j + 1) * (numerator mod denominator)) div denominator mod 10"

text \<open>The strings of the digits at positions \<open>i, \<dots>, i + m - 1\<close>, as the loop appends them.\<close>

definition digit_strings :: "int \<Rightarrow> int \<Rightarrow> nat \<Rightarrow> nat \<Rightarrow> string list" where
  "digit_strings num den i m = map (\<lambda>j. [digit_char (nat (fraction_digit num den j))]) [i..<i + m]"

section \<open>Rounding in \<open>main\<close>\<close>

text \<open>
  The rounding of \<open>decimal_str\<close> to \<open>precision_digits\<close> digits; its only result is the new
  \<open>pi_decimal\<close>. \<open>precision_digits\<close> is a natural number, as \<open>get_user_precision\<close> returns
  20 or more.
\<close>

definition rounding :: "string \<Rightarrow> nat \<Rightarrow> error + string" where
  "rounding decimal_str precision_digits =
     (let pi_decimal = take precision_digits decimal_str
      in case (if length decimal_str > precision_digits
               then int_of_str [decimal_str ! precision_digits] else Inr 0) of
           Inl e \<Rightarrow> Inl e
         | Inr round_digit \<Rightarrow>
             if round_digit \<ge> 5
             then (case int_of_str pi_decimal of
                     Inl e \<Rightarrow> Inl e
                   | Inr v \<Rightarrow>
                       (let num_val = v + 1;
                            pi_decimal = zfill (str_int num_val) precision_digits
                        in Inr (if length pi_decimal > precision_digits
                                then tl pi_decimal else pi_decimal)))
             else Inr pi_decimal)"

section \<open>Fractions\<close>

text \<open>A pair with a positive denominator that is in lowest terms, and the value of a pair.\<close>

definition lowest_terms :: "int \<times> int \<Rightarrow> bool" where
  "lowest_terms r \<longleftrightarrow> snd r > 0 \<and> gcd \<bar>fst r\<bar> (snd r) = 1"

definition fraction_value :: "int \<times> int \<Rightarrow> rat" where
  "fraction_value r = Fract (fst r) (snd r)"

text \<open>
  The two halves of \<open>add_reduce\<close>: the sum over the common denominator, and the division
  by the gcd when it exceeds 1.
\<close>

definition add_unreduced :: "int \<times> int \<Rightarrow> int \<times> int \<Rightarrow> int \<times> int" where
  "add_unreduced s t = (fst s * snd t + fst t * snd s, snd s * snd t)"

definition reduce :: "int \<times> int \<Rightarrow> int \<times> int" where
  "reduce p = (let gcd_val = gcd \<bar>fst p\<bar> (snd p)
               in if gcd_val > 1 then (fst p div gcd_val, snd p div gcd_val) else p)"

section \<open>The accumulated sum is exact\<close>

lemma fact6_advance:
  "foldl (\<lambda>f i. f * i) (fact (6 * m) :: int) [6 * (int m + 1) - 5..6 * (int m + 1)] = fact (6 * m + 6)"
proof -
  have l: "[6 * (int m + 1) - 5..6 * (int m + 1)] =
      [6 * int m + 1, 6 * int m + 2, 6 * int m + 3, 6 * int m + 4, 6 * int m + 5, 6 * int m + 6]"
    by (simp add: upto_rec1)
  have n: "6 * m + 6 = Suc (Suc (Suc (Suc (Suc (Suc (6 * m))))))" by simp
  show ?thesis
    unfolding l n by (simp add: algebra_simps)
qed

lemma fact3_advance:
  "foldl (\<lambda>f i. f * i) (fact (3 * m) :: int) [3 * (int m + 1) - 2..3 * (int m + 1)] = fact (3 * m + 3)"
proof -
  have l: "[3 * (int m + 1) - 2..3 * (int m + 1)] =
      [3 * int m + 1, 3 * int m + 2, 3 * int m + 3]"
    by (simp add: upto_rec1)
  have n: "3 * m + 3 = Suc (Suc (Suc (3 * m)))" by simp
  show ?thesis
    unfolding l n by (simp add: algebra_simps)
qed

lemma add_reduce_normalize:
  assumes "b > 0" "d > 0"
  shows "add_reduce (a, b) (c, d) = Rat.normalize (a * d + c * b, b * d)"
proof -
  let ?n = "a * d + c * b" and ?m = "b * d"
  have pos: "?m > 0" using assms by simp
  have g0: "gcd ?n ?m > 0" using assms by simp
  show ?thesis
  proof (cases "gcd ?n ?m > 1")
    case True
    with pos show ?thesis by (simp add: add_reduce_def Rat.normalize_def Let_def)
  next
    case False
    with g0 have "gcd ?n ?m = 1" by linarith
    with pos show ?thesis by (simp add: add_reduce_def Rat.normalize_def Let_def)
  qed
qed

lemma init_state_at:
  assumes "0 \<le> start"
  shows "\<exists>s0. init_state start = Inr s0 \<and> state_at start s0 \<and> total_num s0 = 0 \<and> total_den s0 = 1"
  using assms by (simp add: init_state_def factorial_def state_at_def)

lemma advance_state_at:
  assumes "0 \<le> k" "state_at k s"
  shows "state_at (k + 1) (advance (k + 1) s)"
proof -
  obtain m where k: "k = int m" using assms(1) nonneg_int_cases by blast
  have n6: "nat (6 * (int m + 1)) = 6 * m + 6" and n3: "nat (3 * (int m + 1)) = 3 * m + 3"
    and n1: "nat (int m + 1) = Suc m" and m6: "nat (6 * int m) = 6 * m" and m3: "nat (3 * int m) = 3 * m"
    by simp_all
  have f6: "fact_6k s = fact (6 * m)" and f3: "fact_3k s = fact (3 * m)"
    and fk: "fact_k_cubed s = fact m ^ 3" and cp: "C_power s = C ^ m"
    and lt: "linear_term s = 545140134 * int m + 13591409"
    using assms(2) unfolding state_at_def k m6 m3 by simp_all
  have c: "(fact (Suc m) :: int) ^ 3 = fact m ^ 3 * (int m + 1) ^ 3"
    by (simp add: power_mult_distrib mult.commute add.commute)
  have "fact_6k (advance (int m + 1) s) = fact (6 * m + 6)"
    using fact6_advance[of m] by (simp add: advance_def f6)
  moreover have "fact_3k (advance (int m + 1) s) = fact (3 * m + 3)"
    using fact3_advance[of m] by (simp add: advance_def f3)
  moreover have "fact_k_cubed (advance (int m + 1) s) = fact (Suc m) ^ 3"
    unfolding c by (simp add: advance_def fk)
  moreover have "C_power (advance (int m + 1) s) = C ^ Suc m"
    by (simp add: advance_def cp)
  moreover have "linear_term (advance (int m + 1) s) = 545140134 * (int m + 1) + 13591409"
    by (simp add: advance_def lt)
  ultimately show ?thesis
    unfolding state_at_def k n6 n3 n1 by simp
qed

lemma advance_totals: "total_num (advance k s) = total_num s" "total_den (advance k s) = total_den s"
  by (simp_all add: advance_def)

lemma term_from_scratch_nonzero: "0 \<le> k \<Longrightarrow> fst (term_from_scratch k) \<noteq> 0"
  by (simp add: term_from_scratch_def)

lemma term_from_scratch_pos: "snd (term_from_scratch k) > 0"
  by (simp add: term_from_scratch_def C_def)


lemma term_step_at:
  assumes "0 \<le> k" "state_at k (if k > start then advance k s else s)"
  shows "state_at k (term_step start s k)"
    and "(total_num (term_step start s k), total_den (term_step start s k)) =
           add_reduce (total_num s, total_den s) (term_from_scratch k)"
proof -
  let ?s1 = "if k > start then advance k s else s"
  have tot: "total_num ?s1 = total_num s" "total_den ?s1 = total_den s"
    by (simp_all add: advance_totals)
  have num: "(if k mod 2 = 0 then 1 else - 1) * fact_6k ?s1 * linear_term ?s1 = fst (term_from_scratch k)"
    using assms(2) unfolding state_at_def term_from_scratch_def by simp
  have den: "fact_3k ?s1 * fact_k_cubed ?s1 * C_power ?s1 = snd (term_from_scratch k)"
    using assms(2) unfolding state_at_def term_from_scratch_def by simp
  have nz: "fst (term_from_scratch k) \<noteq> 0" using assms(1) by (rule term_from_scratch_nonzero)
  have eq: "term_step start s k =
      (let r = add_reduce (total_num s, total_den s) (term_from_scratch k)
       in ?s1\<lparr>total_num := fst r, total_den := snd r\<rparr>)"
    unfolding term_step_def Let_def num den tot using nz by simp
  show "state_at k (term_step start s k)"
    using assms(2) unfolding eq Let_def state_at_def by simp
  show "(total_num (term_step start s k), total_den (term_step start s k)) =
           add_reduce (total_num s, total_den s) (term_from_scratch k)"
    unfolding eq Let_def by simp
qed

lemma upto_snoc: "[start..start + int (Suc n)] = [start..start + int n] @ [start + int n + 1]"
  using upto_rec2[of start "start + int (Suc n)"] by (simp add: add.commute add.left_commute)

lemma loop_from_scratch:
  assumes "0 \<le> start" "state_at start s0" "total_num s0 = 0" "total_den s0 = 1"
  shows "state_at (start + int n) (foldl (term_step start) s0 [start..start + int n]) \<and>
         (total_num (foldl (term_step start) s0 [start..start + int n]),
          total_den (foldl (term_step start) s0 [start..start + int n])) =
           sum_from_scratch start (start + int n)"
proof (induction n)
  case 0
  have nz: "fst (term_from_scratch start) \<noteq> 0" using assms(1) by (rule term_from_scratch_nonzero)
  have a: "state_at start (if start > start then advance start s0 else s0)" using assms(2) by simp
  show ?case
    using term_step_at[OF assms(1) a] nz
    by (simp add: sum_from_scratch_def assms(3,4))
next
  case (Suc n)
  let ?s = "foldl (term_step start) s0 [start..start + int n]"
  let ?k = "start + int n + 1"
  have k0: "0 \<le> ?k" and kn: "0 \<le> start + int n" using assms(1) by simp_all
  have a: "state_at ?k (if ?k > start then advance ?k ?s else ?s)"
    using advance_state_at[OF kn] Suc.IH by simp
  have nz: "fst (term_from_scratch ?k) \<noteq> 0" using k0 by (rule term_from_scratch_nonzero)
  have f: "foldl (term_step start) s0 [start..start + int (Suc n)] = term_step start ?s ?k"
    unfolding upto_snoc by simp
  have g: "sum_from_scratch start (start + int (Suc n)) =
      add_reduce (sum_from_scratch start (start + int n)) (term_from_scratch ?k)"
    unfolding sum_from_scratch_def upto_snoc using nz by simp
  have k': "start + int (Suc n) = ?k" by simp
  show ?case
    unfolding f g using term_step_at[OF k0 a] Suc.IH unfolding k' by simp
qed

lemma term_from_scratch_value:
  "Fract (fst (term_from_scratch (int m))) (snd (term_from_scratch (int m))) = chudnovsky_term m"
proof -
  have s: "(if int m mod 2 = 0 then 1 else - 1 :: int) = (- 1) ^ m"
  proof -
    have e: "int m mod 2 = 0 \<longleftrightarrow> even m" by presburger
    show ?thesis unfolding e by (cases "even m") simp_all
  qed
  have n: "nat (6 * int m) = 6 * m" "nat (3 * int m) = 3 * m" by simp_all
  show ?thesis
    unfolding term_from_scratch_def chudnovsky_term_def Fract_of_int_quotient fst_conv snd_conv s n C_def
    by (simp add: of_nat_fact)
qed

lemma add_reduce_value:
  assumes "b > 0" "d > 0" "add_reduce (a, b) (c, d) = (p, q)"
  shows "q > 0 \<and> coprime p q \<and> Fract p q = Fract a b + Fract c d"
proof -
  have n: "Rat.normalize (a * d + c * b, b * d) = (p, q)"
    using assms add_reduce_normalize by simp
  have bd: "b * d \<noteq> 0" using assms by simp
  have "q > 0" using normalize_denom_pos[OF n] .
  moreover have "coprime p q" using normalize_coprime[OF n] .
  moreover have "Fract p q = Fract (a * d + c * b) (b * d)" using normalize_eq[OF n] .
  ultimately show ?thesis using assms by simp
qed

lemma sum_from_scratch_value:
  assumes "sum_from_scratch (int a) (int a + int n) = (p, q)"
  shows "q > 0 \<and> coprime p q \<and> Fract p q = (\<Sum>k = a..a + n. chudnovsky_term k)"
  using assms
proof (induction n arbitrary: p q)
  case 0
  have nz: "fst (term_from_scratch (int a)) \<noteq> 0" by (rule term_from_scratch_nonzero) simp
  obtain c d where t: "term_from_scratch (int a) = (c, d)" by (cases "term_from_scratch (int a)")
  have d: "d > 0" using term_from_scratch_pos[of "int a"] t by simp
  have "add_reduce (0, 1) (c, d) = (p, q)"
    using 0 nz t by (simp add: sum_from_scratch_def)
  from add_reduce_value[OF _ d this] term_from_scratch_value[of a] t
  show ?case by (simp add: rat_number_collapse)
next
  case (Suc n)
  let ?k = "int a + int n + 1"
  obtain p0 q0 where s: "sum_from_scratch (int a) (int a + int n) = (p0, q0)"
    by (cases "sum_from_scratch (int a) (int a + int n)")
  obtain c d where t: "term_from_scratch ?k = (c, d)" by (cases "term_from_scratch ?k")
  have d: "d > 0" using term_from_scratch_pos[of ?k] t by simp
  have nz: "fst (term_from_scratch ?k) \<noteq> 0" by (rule term_from_scratch_nonzero) simp
  have g: "sum_from_scratch (int a) (int a + int (Suc n)) =
      add_reduce (sum_from_scratch (int a) (int a + int n)) (term_from_scratch ?k)"
    unfolding sum_from_scratch_def upto_snoc using nz by simp
  have ih: "q0 > 0 \<and> coprime p0 q0 \<and> Fract p0 q0 = (\<Sum>k = a..a + n. chudnovsky_term k)"
    using Suc.IH[OF s] .
  have "add_reduce (p0, q0) (c, d) = (p, q)" using Suc.prems g s t by simp
  from add_reduce_value[OF _ d this] ih
  have r: "q > 0 \<and> coprime p q \<and> Fract p q = (\<Sum>k = a..a + n. chudnovsky_term k) + Fract c d" by simp
  have k: "?k = int (Suc (a + n))" by simp
  have "Fract c d = chudnovsky_term (Suc (a + n))"
    using term_from_scratch_value[of "Suc (a + n)"] t unfolding k by simp
  with r show ?case by simp
qed


text \<open>
  C1. For \<open>0 \<le> start \<le> end\<close>, \<open>compute_pi_terms\<close> returns a pair with a positive
  denominator whose rational value is the exact sum of the series terms of the range, and
  the pair is the very pair that the from-scratch recomputation of every term gives.
\<close>

theorem compute_pi_terms_exact_sum:
  assumes "0 \<le> start" "start \<le> end'"
  shows "\<exists>num den. compute_pi_terms start end' = Inr (num, den) \<and> den > 0 \<and>
           of_int num / of_int den = (\<Sum>k = nat start..nat end'. chudnovsky_term k) \<and>
           (num, den) = sum_from_scratch start end'"
proof -
  obtain a where a: "start = int a" using assms(1) nonneg_int_cases by blast
  obtain n where n: "end' = start + int n" using assms(2) zle_iff_zadd by auto
  obtain s0 where s0: "init_state start = Inr s0" "state_at start s0" "total_num s0 = 0" "total_den s0 = 1"
    using init_state_at[OF assms(1)] by blast
  let ?s = "foldl (term_step start) s0 [start..end']"
  have c: "compute_pi_terms start end' = Inr (total_num ?s, total_den ?s)"
    by (simp add: compute_pi_terms_def s0(1) Let_def)
  have eq: "(total_num ?s, total_den ?s) = sum_from_scratch start end'"
    using loop_from_scratch[OF assms(1) s0(2,3,4), of n] unfolding n by simp
  then have "sum_from_scratch (int a) (int a + int n) = (total_num ?s, total_den ?s)"
    unfolding a n by simp
  from sum_from_scratch_value[OF this]
  have v: "total_den ?s > 0" "Fract (total_num ?s) (total_den ?s) = (\<Sum>k = a..a + n. chudnovsky_term k)"
    by simp_all
  have r: "nat start = a" "nat end' = a + n" unfolding n a by simp_all
  have q: "rat_of_int (total_num ?s) / rat_of_int (total_den ?s) = (\<Sum>k = a..a + n. chudnovsky_term k)"
    using v(2) by (simp add: Fract_of_int_quotient)
  show ?thesis
    unfolding r
    by (intro exI[of _ "total_num ?s"] exI[of _ "total_den ?s"] conjI c v(1) q eq)
qed

theorem compute_pi_terms_exact_sum_witness:
  "(0::int) \<le> 0 \<and> (0::int) \<le> 1 \<and>
   (\<exists>num den. compute_pi_terms 0 1 = Inr (num, den) \<and> den > 0 \<and>
      of_int num / of_int den = (\<Sum>k = nat 0..nat 1. chudnovsky_term k) \<and>
      (num, den) = sum_from_scratch 0 1)"
  using compute_pi_terms_exact_sum[of 0 1] by simp

section \<open>Empty ranges, lowest terms and the merge order\<close>

lemma compute_pi_terms_empty:
  assumes "0 \<le> start" "end' < start"
  shows "compute_pi_terms start end' = Inr (0, 1)"
proof -
  obtain s0 where s0: "init_state start = Inr s0" "total_num s0 = 0" "total_den s0 = 1"
    using init_state_at[OF assms(1)] by blast
  have "[start..end'] = []" using assms(2) by simp
  then show ?thesis by (simp add: compute_pi_terms_def s0)
qed

lemma add_reduce_lowest_terms:
  assumes "snd s > 0" "snd t > 0"
  shows "lowest_terms (add_reduce s t)" "fraction_value (add_reduce s t) = fraction_value s + fraction_value t"
proof -
  obtain a b c d p q where e: "s = (a, b)" "t = (c, d)" "add_reduce s t = (p, q)"
    by (cases s, cases t, cases "add_reduce s t") blast
  have v: "q > 0 \<and> coprime p q \<and> Fract p q = Fract a b + Fract c d"
    using add_reduce_value[of b d a c p q] assms e by simp
  then have g: "gcd \<bar>p\<bar> q = 1" by (simp add: coprime_iff_gcd_eq_1)
  show "lowest_terms (add_reduce s t)"
    unfolding lowest_terms_def e(3) using v g by simp
  have "fraction_value (p, q) = fraction_value (a, b) + fraction_value (c, d)"
    using v by (simp add: fraction_value_def)
  then show "fraction_value (add_reduce s t) = fraction_value s + fraction_value t"
    unfolding e(3) unfolding e(1,2) .
qed

lemma lowest_terms_quotient_of:
  assumes "lowest_terms r"
  shows "r = quotient_of (fraction_value r)"
proof -
  obtain p q where r: "r = (p, q)" by (cases r)
  have "q > 0" "coprime p q" using assms by (simp_all add: lowest_terms_def r coprime_iff_gcd_eq_1)
  then show ?thesis
    by (simp add: r fraction_value_def quotient_of_Fract)
qed

lemma foldl_add_reduce_pos:
  assumes "snd r > 0" "\<forall>x\<in>set rs. snd x > 0"
  shows "snd (foldl add_reduce r rs) > 0"
  using assms
proof (induction rs arbitrary: r)
  case Nil
  then show ?case by simp
next
  case (Cons x rs)
  have "lowest_terms (add_reduce r x)" using Cons.prems by (intro add_reduce_lowest_terms) simp_all
  then have "snd (add_reduce r x) > 0" by (simp add: lowest_terms_def)
  with Cons show ?case by simp
qed

lemma foldl_add_reduce_value:
  assumes "snd r > 0" "\<forall>x\<in>set rs. snd x > 0"
  shows "fraction_value (foldl add_reduce r rs) = fraction_value r + sum_list (map fraction_value rs)"
  using assms
proof (induction rs arbitrary: r)
  case Nil
  then show ?case by simp
next
  case (Cons x rs)
  have x: "snd x > 0" using Cons.prems by simp
  have "lowest_terms (add_reduce r x)" using Cons.prems by (intro add_reduce_lowest_terms) simp_all
  then have p: "snd (add_reduce r x) > 0" by (simp add: lowest_terms_def)
  have "fraction_value (foldl add_reduce (add_reduce r x) rs) =
      fraction_value (add_reduce r x) + sum_list (map fraction_value rs)"
    using Cons.IH[OF p] Cons.prems by simp
  then show ?case
    using add_reduce_lowest_terms(2)[OF Cons.prems(1) x] by simp
qed

lemma foldl_add_reduce_lowest_terms:
  assumes "snd r > 0" "\<forall>x\<in>set rs. snd x > 0" "rs \<noteq> []"
  shows "lowest_terms (foldl add_reduce r rs)"
  using assms
proof (induction rs rule: rev_induct)
  case Nil
  then show ?case by simp
next
  case (snoc x rs)
  have "snd (foldl add_reduce r rs) > 0" using snoc.prems by (intro foldl_add_reduce_pos) simp_all
  then show ?case using snoc.prems by (simp add: add_reduce_lowest_terms(1))
qed

lemma merge_results_canonical:
  assumes "\<forall>x\<in>set results. snd x > 0" "length results \<ge> 2"
  shows "merge_results results = Inr (quotient_of (sum_list (map fraction_value results)))"
proof -
  obtain r rs where e: "results = r # rs" "rs \<noteq> []"
  proof (cases results)
    case Nil
    with assms(2) show ?thesis by simp
  next
    case (Cons r rs)
    with assms(2) have "rs \<noteq> []" by auto
    with Cons that show ?thesis by blast
  qed
  have p: "snd r > 0" "\<forall>x\<in>set rs. snd x > 0" using assms(1) e by simp_all
  have "foldl add_reduce r rs = quotient_of (fraction_value (foldl add_reduce r rs))"
    using foldl_add_reduce_lowest_terms[OF p e(2)] by (rule lowest_terms_quotient_of)
  then show ?thesis
    using foldl_add_reduce_value[OF p] by (simp add: merge_results_def e)
qed

lemma add_reduce_reduce: "add_reduce s t = reduce (add_unreduced s t)"
  by (simp add: add_reduce_def reduce_def add_unreduced_def Let_def)

lemma reduce_scale:
  assumes "g > 0"
  shows "reduce (g * u, g * v) = reduce (u, v)"
proof -
  let ?h = "gcd u v"
  have gh: "gcd \<bar>g * u\<bar> (g * v) = g * ?h"
    using assms by (simp add: gcd_mult_left abs_of_pos)
  have h': "gcd \<bar>u\<bar> v = ?h" by simp
  have l: "reduce (g * u, g * v) =
      (if g * ?h > 1 then (g * u div (g * ?h), g * v div (g * ?h)) else (g * u, g * v))"
    unfolding reduce_def Let_def fst_conv snd_conv gh ..
  have r: "reduce (u, v) = (if ?h > 1 then (u div ?h, v div ?h) else (u, v))"
    unfolding reduce_def Let_def fst_conv snd_conv h' ..
  have du: "g * u div (g * ?h) = u div ?h" and dv: "g * v div (g * ?h) = v div ?h"
    using assms by simp_all
  show ?thesis
  proof (cases "?h = 0")
    case True
    then show ?thesis unfolding l r by simp
  next
    case False
    then have h: "?h > 0" by (simp add: less_le)
    show ?thesis
    proof (cases "?h > 1")
      case True
      have "1 * ?h \<le> g * ?h" using assms h by (intro mult_right_mono) simp_all
      with True have "g * ?h > 1" by simp
      then show ?thesis unfolding l r du dv using True by simp
    next
      case h1: False
      with h have e: "?h = 1" by linarith
      show ?thesis
      proof (cases "g > 1")
        case True
        then show ?thesis unfolding l r du dv unfolding e by simp
      next
        case False
        with assms have "g = 1" by linarith
        then show ?thesis by simp
      qed
    qed
  qed
qed

lemma reduce_add_unreduced:
  "reduce (add_unreduced (reduce X) t) = reduce (add_unreduced X t)"
proof (cases "gcd \<bar>fst X\<bar> (snd X) > 1")
  case False
  then have "reduce X = X" by (simp add: reduce_def)
  then show ?thesis by simp
next
  case True
  let ?g = "gcd \<bar>fst X\<bar> (snd X)"
  let ?n = "fst X div ?g" and ?d = "snd X div ?g"
  have g: "?g > 0" using True by linarith
  have X: "fst X = ?g * ?n" "snd X = ?g * ?d" by simp_all
  have rX: "reduce X = (?n, ?d)" using True by (simp add: reduce_def Let_def)
  have "add_unreduced X t = (?g * (?n * snd t + fst t * ?d), ?g * (?d * snd t))"
    unfolding add_unreduced_def by (subst (1 2 3) X) (simp add: algebra_simps)
  then have "reduce (add_unreduced X t) = reduce (?n * snd t + fst t * ?d, ?d * snd t)"
    using reduce_scale[OF g] by simp
  then show ?thesis unfolding rX by (simp add: add_unreduced_def)
qed

lemma foldl_add_reduce_unreduced:
  assumes "rs \<noteq> []"
  shows "foldl add_reduce r rs = reduce (foldl add_unreduced r rs)"
  using assms
proof (induction rs rule: rev_induct)
  case Nil
  then show ?case by simp
next
  case (snoc t rs)
  show ?case
  proof (cases "rs = []")
    case True
    then show ?thesis by (simp add: add_reduce_reduce)
  next
    case False
    then show ?thesis
      using snoc.IH by (simp add: add_reduce_reduce reduce_add_unreduced)
  qed
qed

lemma add_unreduced_commute:
  "add_unreduced (add_unreduced acc x) y = add_unreduced (add_unreduced acc y) x"
  by (simp add: add_unreduced_def algebra_simps)

lemma add_unreduced_zero: "add_unreduced (0, 1) r = r"
  by (simp add: add_unreduced_def)

lemma foldl_add_unreduced_perm:
  assumes "mset xs = mset ys"
  shows "foldl add_unreduced (0, 1) xs = foldl add_unreduced (0, 1) ys"
proof -
  have "fold (\<lambda>x acc. add_unreduced acc x) xs = fold (\<lambda>x acc. add_unreduced acc x) ys"
    using assms by (intro fold_multiset_equiv) (auto simp: add_unreduced_commute)
  then show ?thesis by (simp add: foldl_conv_fold)
qed

text \<open>
  C6. Merging the same chunk results in any order gives the same pair: a permutation of
  the list of results changes neither the numerator nor the denominator of the merged
  fraction. With two or more results the merged pair is the reduction of the sum over the
  common denominator, which does not depend on the order.
\<close>

theorem merge_results_order_independent:
  assumes "mset xs = mset ys"
  shows "merge_results xs = merge_results ys"
proof (cases xs)
  case Nil
  with assms show ?thesis by simp
next
  case (Cons x xs')
  then have "ys \<noteq> []" using assms by auto
  then obtain y ys' where ys: "ys = y # ys'" by (cases ys) auto
  have len: "length xs' = length ys'"
    using mset_eq_length[OF assms] Cons ys by simp
  show ?thesis
  proof (cases "xs' = []")
    case True
    with len have "ys' = []" by simp
    with True assms Cons ys show ?thesis by simp
  next
    case False
    with len have ne: "ys' \<noteq> []" by auto
    have "foldl add_unreduced x xs' = foldl add_unreduced (0, 1) xs"
      by (simp add: Cons add_unreduced_zero)
    also have "\<dots> = foldl add_unreduced (0, 1) ys"
      using assms by (rule foldl_add_unreduced_perm)
    also have "\<dots> = foldl add_unreduced y ys'"
      by (simp add: ys add_unreduced_zero)
    finally show ?thesis
      by (simp add: merge_results_def Cons ys
          foldl_add_reduce_unreduced[OF False] foldl_add_reduce_unreduced[OF ne])
  qed
qed

theorem merge_results_order_independent_witness:
  "mset [(1, 2), (1, 3), (1, 6 :: int)] = mset [(1, 6), (1, 2), (1, 3 :: int)] \<and>
   merge_results [(1, 2), (1, 3), (1, 6)] = merge_results [(1, 6), (1, 2), (1, 3)]"
proof -
  have m: "mset [(1, 2), (1, 3), (1, 6 :: int)] = mset [(1, 6), (1, 2), (1, 3 :: int)]" by simp
  show ?thesis using m merge_results_order_independent[OF m] by blast
qed

lemma take_upto_prefix:
  assumes "j \<le> length [start..end']" "0 < j"
  shows "take j [start..end'] = [start..start + int (j - 1)]"
proof (rule nth_equalityI)
  show "length (take j [start..end']) = length [start..start + int (j - 1)]"
    using assms by simp
next
  fix i assume "i < length (take j [start..end'])"
  then have i: "i < j" "j \<le> nat (end' - start + 1)" using assms by simp_all
  then have "take j [start..end'] ! i = start + int i" by (simp add: nth_upto)
  moreover have "[start..start + int (j - 1)] ! i = start + int i"
    using i by (simp add: nth_upto)
  ultimately show "take j [start..end'] ! i = [start..start + int (j - 1)] ! i" by simp
qed

lemma init_state_nonneg:
  assumes "init_state start = Inr s0"
  shows "0 \<le> start"
  using assms by (auto simp: init_state_def factorial_def split: if_splits)

lemma loop_prefix_lowest_terms:
  assumes "init_state start = Inr s0" "j \<le> length [start..end']"
  shows "lowest_terms (total_num (foldl (term_step start) s0 (take j [start..end'])),
                       total_den (foldl (term_step start) s0 (take j [start..end'])))"
proof -
  have st: "0 \<le> start" using assms(1) by (rule init_state_nonneg)
  obtain s0' where s0': "init_state start = Inr s0'" "state_at start s0'" "total_num s0' = 0" "total_den s0' = 1"
    using init_state_at[OF st] by blast
  then have s0: "state_at start s0" "total_num s0 = 0" "total_den s0 = 1" using assms(1) by simp_all
  show ?thesis
  proof (cases "j = 0")
    case True
    then show ?thesis by (simp add: s0 lowest_terms_def)
  next
    case False
    then have t: "take j [start..end'] = [start..start + int (j - 1)]"
      using take_upto_prefix[OF assms(2)] by simp
    obtain a where a: "start = int a" using st nonneg_int_cases by blast
    let ?s = "foldl (term_step start) s0 [start..start + int (j - 1)]"
    have "sum_from_scratch (int a) (int a + int (j - 1)) = (total_num ?s, total_den ?s)"
      using loop_from_scratch[OF st s0, of "j - 1"] unfolding a by simp
    from sum_from_scratch_value[OF this]
    have "total_den ?s > 0" "coprime (total_num ?s) (total_den ?s)" by simp_all
    then show ?thesis unfolding t lowest_terms_def by (simp add: coprime_iff_gcd_eq_1)
  qed
qed

lemma compute_pi_terms_lowest_terms:
  assumes "compute_pi_terms start end' = Inr r"
  shows "lowest_terms r"
proof -
  obtain s0 where s0: "init_state start = Inr s0"
    using assms by (cases "init_state start") (simp_all add: compute_pi_terms_def)
  have "r = (total_num (foldl (term_step start) s0 (take (length [start..end']) [start..end'])),
             total_den (foldl (term_step start) s0 (take (length [start..end']) [start..end'])))"
    using assms by (simp add: compute_pi_terms_def s0 Let_def)
  then show ?thesis using loop_prefix_lowest_terms[OF s0, of "length [start..end']" end'] by simp
qed

lemma merge_prefix_lowest_terms:
  assumes "\<forall>x\<in>set (r # rs). snd x > 0" "lowest_terms r \<or> 1 \<le> j" "j \<le> length rs"
  shows "lowest_terms (foldl add_reduce r (take j rs))"
proof (cases "j = 0")
  case True
  with assms(2) show ?thesis by simp
next
  case False
  then have ne: "take j rs \<noteq> []" using assms(3) by auto
  have "\<forall>x\<in>set (take j rs). snd x > 0" using assms(1) by (auto dest: in_set_takeD)
  then show ?thesis using assms(1) ne by (intro foldl_add_reduce_lowest_terms) simp_all
qed

text \<open>
  C10. After every iteration of the accumulation loop of \<open>compute_pi_terms\<close> (every prefix
  of the range), in the pair it returns, and after every step of the merge fold over
  fractions with positive denominators, the fraction has a positive denominator and is in
  lowest terms.
\<close>

theorem lowest_terms_after_every_step:
  "(init_state start = Inr s0 \<longrightarrow> j \<le> length [start..end'] \<longrightarrow>
      lowest_terms (total_num (foldl (term_step start) s0 (take j [start..end'])),
                    total_den (foldl (term_step start) s0 (take j [start..end'])))) \<and>
   (compute_pi_terms start end' = Inr res \<longrightarrow> lowest_terms res) \<and>
   ((\<forall>x\<in>set (r # rs). snd x > 0) \<longrightarrow> lowest_terms r \<or> 1 \<le> i \<longrightarrow> i \<le> length rs \<longrightarrow>
      lowest_terms (foldl add_reduce r (take i rs)))"
  using loop_prefix_lowest_terms compute_pi_terms_lowest_terms merge_prefix_lowest_terms
  by blast

lemma init_state_0:
  "init_state 0 = Inr \<lparr>fact_6k = 1, fact_3k = 1, fact_k_cubed = 1, C_power = 1,
                linear_term = 13591409, total_num = 0, total_den = 1\<rparr>"
  by (simp add: init_state_def)

lemma compute_pi_terms_0_0: "compute_pi_terms 0 0 = Inr (13591409, 1)"
  by (simp add: compute_pi_terms_def init_state_def term_step_def add_reduce_def Let_def)

theorem lowest_terms_after_every_step_witness:
  "init_state 0 = Inr \<lparr>fact_6k = 1, fact_3k = 1, fact_k_cubed = 1, C_power = 1,
                linear_term = 13591409, total_num = 0, total_den = 1\<rparr> \<and>
   1 \<le> length [0..0::int] \<and>
   lowest_terms (total_num (foldl (term_step 0) \<lparr>fact_6k = 1, fact_3k = 1, fact_k_cubed = 1, C_power = 1,
                linear_term = 13591409, total_num = 0, total_den = 1\<rparr> (take 1 [0..0])),
                    total_den (foldl (term_step 0) \<lparr>fact_6k = 1, fact_3k = 1, fact_k_cubed = 1, C_power = 1,
                linear_term = 13591409, total_num = 0, total_den = 1\<rparr> (take 1 [0..0]))) \<and>
   compute_pi_terms 0 0 = Inr (13591409, 1) \<and> lowest_terms (13591409, 1) \<and>
   snd (1, 2 :: int) > (0::int) \<and> snd (1, 6 :: int) > (0::int) \<and>
   (1::nat) \<le> 1 \<and> (1::nat) \<le> length [(1, 6 :: int)] \<and>
   lowest_terms (foldl add_reduce (1, 2) (take 1 [(1, 6)]))"
  using lowest_terms_after_every_step[of 0 "\<lparr>fact_6k = 1, fact_3k = 1, fact_k_cubed = 1, C_power = 1,
                linear_term = 13591409, total_num = 0, total_den = 1\<rparr>" 1 0 "(13591409, 1)" "(1, 2)" "[(1, 6)]" 1]
    init_state_0 compute_pi_terms_0_0
  by simp

text \<open>
  C9 (as amended). For an empty range, \<open>end < start\<close> with \<open>0 \<le> start\<close>, \<open>compute_pi_terms\<close>
  raises nothing: the loop body never runs and the call returns the pair \<open>(0, 1)\<close>, the
  empty sum.
\<close>

theorem compute_pi_terms_empty_range:
  assumes "0 \<le> start" "end' < start"
  shows "compute_pi_terms start end' = Inr (0, 1)"
  using assms by (rule compute_pi_terms_empty)

theorem compute_pi_terms_empty_range_witness:
  "(0::int) \<le> 5 \<and> (4::int) < 5 \<and> compute_pi_terms 5 4 = Inr (0, 1)"
  using compute_pi_terms_empty_range[of 5 4] by simp

text \<open>The empty range \<open>(21, 20)\<close>, the last one for 20 terms on 8 cores, is answered with a value.\<close>

theorem compute_pi_terms_empty_range_counterexample:
  "compute_pi_terms 21 20 = Inr (0, 1)"
  by (rule compute_pi_terms_empty) simp_all

section \<open>The partition of the term range\<close>

text \<open>
  C2. For 20 terms on 4 cores the ranges end at index 19, so index 20 is in none of them;
  for 20 terms on 8 cores the last range is \<open>(21, 20)\<close>, which is empty.
\<close>

theorem ranges_miss_last_index:
  "ranges 20 4 = Inr [(0, 4), (5, 9), (10, 14), (15, 19)] \<and>
   20 \<notin> (\<Union>r\<in>set [(0, 4), (5, 9), (10, 14), (15, 19)]. range_indices r) \<and>
   ranges 20 8 = Inr [(0, 2), (3, 5), (6, 8), (9, 11), (12, 14), (15, 17), (18, 20), (21, 20)] \<and>
   range_indices (21, 20) = {}"
proof -
  have a: "[0..3::int] = [0, 1, 2, 3]" by (simp add: upto_rec1)
  have b: "[0..7::int] = [0, 1, 2, 3, 4, 5, 6, 7]" by (simp add: upto_rec1)
  have "ranges 20 4 = Inr [(0, 4), (5, 9), (10, 14), (15, 19)]"
    by (simp add: ranges_def a)
  moreover have "ranges 20 8 = Inr [(0, 2), (3, 5), (6, 8), (9, 11), (12, 14), (15, 17), (18, 20), (21, 20)]"
    by (simp add: ranges_def b)
  moreover have "20 \<notin> (\<Union>r\<in>set [(0, 4), (5, 9), (10, 14), (15, 19)]. range_indices r)"
    by (simp add: range_indices_def)
  moreover have "range_indices (21, 20) = {}" by (simp add: range_indices_def)
  ultimately show ?thesis by blast
qed

section \<open>The square root iterations\<close>

lemma sqrt_scaled_loop_cycle_aux:
  assumes cyc: "a \<noteq> b" "a \<noteq> 0" "b \<noteq> 0" "(a + N div a) div 2 = b" "(b + N div b) div 2 = a"
    and ret: "sqrt_scaled_loop M x p = Some y"
  shows "\<not> (M = N \<and> ((x = a \<and> p = b) \<or> (x = b \<and> p = a)))"
proof -
  let ?P = "\<lambda>(M::int) (x::int) (p::int) (y::error + int).
              \<not> (M = N \<and> ((x = a \<and> p = b) \<or> (x = b \<and> p = a)))"
  have step: "?P scaled_n x prev_x r"
    if IH: "\<And>M x p y. f M x p = Some y \<Longrightarrow> ?P M x p y"
      and eq: "(if x \<noteq> prev_x
                then if x = 0 then Some (Inl ZeroDivisionError)
                     else f scaled_n ((x + scaled_n div x) div 2) x
                else Some (Inr x)) = Some r"
    for f :: "int \<Rightarrow> int \<Rightarrow> int \<Rightarrow> (error + int) option" and scaled_n x prev_x r
  proof
    assume "scaled_n = N \<and> ((x = a \<and> prev_x = b) \<or> (x = b \<and> prev_x = a))"
    then consider "scaled_n = N" "x = a" "prev_x = b" | "scaled_n = N" "x = b" "prev_x = a"
      by blast
    then show False
    proof cases
      case 1
      with eq cyc have "f N b a = Some r" by simp
      from IH[OF this] show False by simp
    next
      case 2
      with eq cyc have "f N a b = Some r" by simp
      from IH[OF this] show False by simp
    qed
  qed
  have "(case ((M, x), p) of (u, v) \<Rightarrow> (case u of (u, w) \<Rightarrow> ?P u w) v) y"
  proof (rule sqrt_scaled_loop.raw_induct[where P = ?P and xa = "((M, x), p)" and y = y])
    show "(case ((M, x), p) of (u, v) \<Rightarrow> (case u of (u, w) \<Rightarrow> sqrt_scaled_loop u w) v) = Some y"
      using ret by simp
  qed (rule step)
  then show ?thesis by simp
qed

lemma sqrt_scaled_loop_cycle:
  assumes "a \<noteq> b" "a \<noteq> 0" "b \<noteq> 0" "(a + N div a) div 2 = b" "(b + N div b) div 2 = a"
  shows "sqrt_scaled_loop N a b = None"
proof (cases "sqrt_scaled_loop N a b")
  case None
  then show ?thesis .
next
  case (Some y)
  from sqrt_scaled_loop_cycle_aux[OF assms Some] show ?thesis by simp
qed

lemma sqrt_prepass_3: "sqrt_prepass 3 1 = Some (Inr 1)"
  by (subst sqrt_prepass.simps) simp

text \<open>
  C3. \<open>high_precision_sqrt(3, 0)\<close> returns nothing: after the first loop has ended, the
  scaled iteration, with \<open>scaled_n = 3\<close>, goes from 1 to 2 and from 2 back to 1 for ever, so
  \<open>x != prev_x\<close> never fails and no floor of the square root is returned.
\<close>

theorem high_precision_sqrt_3_diverges: "high_precision_sqrt 3 0 = None"
proof -
  have c: "sqrt_scaled_loop 3 2 1 = None" by (rule sqrt_scaled_loop_cycle) simp_all
  have "sqrt_scaled_loop 3 1 (- 1) = sqrt_scaled_loop 3 2 1"
    by (subst sqrt_scaled_loop.simps) simp
  with c show ?thesis by (simp add: high_precision_sqrt_def sqrt_prepass_3)
qed

text \<open>
  C7. For \<open>n = 24\<close> and precision 1 the scaled Newton iteration, started at
  \<open>scaled_n div 2\<close> with \<open>prev_x = -1\<close>, does not terminate: it descends to 49 and then
  alternates between 48 and 49, since \<open>2400 + 1 = 49\<^sup>2\<close>.
\<close>

theorem sqrt_scaled_loop_2400_diverges:
  "sqrt_scaled_loop (24 * 10 ^ (2 * 1)) (24 * 10 ^ (2 * 1) div 2) (- 1) = None"
proof -
  have c: "sqrt_scaled_loop 2400 48 49 = None" by (rule sqrt_scaled_loop_cycle) simp_all
  have "sqrt_scaled_loop 2400 1200 (- 1) = sqrt_scaled_loop 2400 601 1200"
    by (subst sqrt_scaled_loop.simps) simp
  also have "\<dots> = sqrt_scaled_loop 2400 302 601" by (subst sqrt_scaled_loop.simps) simp
  also have "\<dots> = sqrt_scaled_loop 2400 154 302" by (subst sqrt_scaled_loop.simps) simp
  also have "\<dots> = sqrt_scaled_loop 2400 84 154" by (subst sqrt_scaled_loop.simps) simp
  also have "\<dots> = sqrt_scaled_loop 2400 56 84" by (subst sqrt_scaled_loop.simps) simp
  also have "\<dots> = sqrt_scaled_loop 2400 49 56" by (subst sqrt_scaled_loop.simps) simp
  also have "\<dots> = sqrt_scaled_loop 2400 48 49" by (subst sqrt_scaled_loop.simps) simp
  finally show ?thesis using c by simp
qed

text \<open>
  C8. For \<open>n = 0\<close> and every precision, \<open>high_precision_sqrt\<close> raises
  \<open>ZeroDivisionError\<close>: the first loop goes from \<open>x = 1\<close> to \<open>x = 0\<close> and then divides by
  \<open>x\<close>. It does not return 0.
\<close>

theorem high_precision_sqrt_0_raises: "high_precision_sqrt 0 precision = Some (Inl ZeroDivisionError)"
proof -
  have "sqrt_prepass 0 1 = sqrt_prepass 0 0" by (subst sqrt_prepass.simps) simp
  also have "\<dots> = Some (Inl ZeroDivisionError)" by (subst sqrt_prepass.simps) simp
  finally show ?thesis by (simp add: high_precision_sqrt_def)
qed

lemma sqrt_scaled_loop_0_raises: "sqrt_scaled_loop 0 1 (- 1) = Some (Inl ZeroDivisionError)"
proof -
  have "sqrt_scaled_loop 0 1 (- 1) = sqrt_scaled_loop 0 0 1" by (subst sqrt_scaled_loop.simps) simp
  also have "\<dots> = Some (Inl ZeroDivisionError)" by (subst sqrt_scaled_loop.simps) simp
  finally show ?thesis .
qed

section \<open>The digits of the long division\<close>

lemma digit_range:
  fixes X den :: int
  assumes "den \<noteq> 0"
  shows "0 \<le> (10 * (X mod den)) div den \<and> (10 * (X mod den)) div den < 10"
proof -
  let ?r = "X mod den"
  let ?t = "(10 * ?r) div den" and ?m = "(10 * ?r) mod den"
  have e: "10 * ?r = den * ?t + ?m" by simp
  show ?thesis
  proof (cases "0 < den")
    case True
    then have r: "0 \<le> ?r" "?r < den" by simp_all
    have m: "0 \<le> ?m" using True by simp
    have "0 \<le> ?t" using True r by (simp add: pos_imp_zdiv_nonneg_iff)
    moreover have "?t < 10"
    proof (rule ccontr)
      assume "\<not> ?t < 10"
      then have "den * 10 \<le> den * ?t" using True by (intro mult_left_mono) simp_all
      with e m r show False by linarith
    qed
    ultimately show ?thesis by simp
  next
    case False
    with assms have neg: "den < 0" by simp
    then have r: "?r \<le> 0" "den < ?r" by simp_all
    have m: "?m \<le> 0" using neg by simp
    have "0 \<le> ?t" using neg r by (simp add: neg_imp_zdiv_nonneg_iff)
    moreover have "?t < 10"
    proof (rule ccontr)
      assume "\<not> ?t < 10"
      then have "den * ?t \<le> den * 10" using neg by (intro mult_left_mono_neg) simp_all
      with e m r show False by linarith
    qed
    ultimately show ?thesis by simp
  qed
qed

lemma digit_step:
  fixes X den :: int
  assumes "den \<noteq> 0"
  shows "(10 * (X mod den)) div den = ((10 * X) div den) mod 10"
proof -
  have "(10 * X) div den = 10 * (X div den) + (10 * (X mod den)) div den"
    by (rule div_mult1_eq)
  then have "((10 * X) div den) mod 10 = ((10 * (X mod den)) div den) mod 10"
    by simp
  also have "\<dots> = (10 * (X mod den)) div den"
    using digit_range[OF assms, of X] by simp
  finally show ?thesis by simp
qed

lemma remainder_step:
  fixes X den :: int
  shows "(10 * (X mod den)) mod den = (10 * X) mod den"
  by (simp add: mod_mult_right_eq)

lemma fraction_digit_range:
  assumes "den \<noteq> 0"
  shows "0 \<le> fraction_digit num den j" "fraction_digit num den j < 10"
  by (simp_all add: fraction_digit_def)

lemma fraction_digit_step:
  assumes "den \<noteq> 0"
  shows "(10 * ((10 ^ j * (num mod den)) mod den)) div den = fraction_digit num den j"
  using digit_step[OF assms, of "10 ^ j * (num mod den)"]
  by (simp add: fraction_digit_def mult.assoc)

lemma fraction_digit_after_end:
  assumes "den \<noteq> 0" "(10 ^ L * (num mod den)) mod den = 0" "L \<le> j"
  shows "fraction_digit num den j = 0"
proof -
  obtain q where q: "10 ^ L * (num mod den) = den * q"
    using assms(2) by (auto simp: mod_eq_0_iff_dvd)
  have "(10::int) ^ (j + 1) = 10 * 10 ^ (j - L) * 10 ^ L"
    using assms(3) by (simp add: power_add[symmetric])
  then have "10 ^ (j + 1) * (num mod den) = den * (10 * (10 ^ (j - L) * q))"
    using q by (simp add: mult.assoc)
  moreover have "den * (10 * (10 ^ (j - L) * q)) div den = 10 * (10 ^ (j - L) * q)"
    using assms(1) by (rule nonzero_mult_div_cancel_left)
  ultimately have "(10 ^ (j + 1) * (num mod den)) div den = 10 * (10 ^ (j - L) * q)"
    by (simp only:)
  then show ?thesis by (simp add: fraction_digit_def)
qed

lemma digit_char_0: "digit_char 0 = CHR ''0''"
  by code_simp

lemma str_int_digit: "0 \<le> d \<Longrightarrow> d < 10 \<Longrightarrow> str_int d = [digit_char (nat d)]"
  by (simp add: str_int_def str_nat.simps)

lemma division_loop_digits:
  assumes "den \<noteq> 0" "remainder = (10 ^ length acc * (num mod den)) mod den"
  shows "\<exists>m. m \<le> n \<and> division_loop n remainder den acc = acc @ digit_strings num den (length acc) m \<and>
           (m = n \<or> (10 ^ (length acc + m) * (num mod den)) mod den = 0)"
  using assms(2)
proof (induction n arbitrary: remainder acc)
  case 0
  have "division_loop 0 remainder den acc = acc @ digit_strings num den (length acc) 0"
    by (simp add: digit_strings_def)
  then show ?case by (intro exI[of _ 0]) simp
next
  case (Suc n)
  show ?case
  proof (cases "remainder = 0")
    case True
    have a: "division_loop (Suc n) remainder den acc = acc @ digit_strings num den (length acc) 0"
      using True by (simp add: digit_strings_def)
    have b: "(10 ^ (length acc + 0) * (num mod den)) mod den = 0"
      using True Suc.prems by simp
    show ?thesis
      by (rule exI[of _ 0], intro conjI a disjI2 b) simp
  next
    case False
    let ?d = "fraction_digit num den (length acc)"
    let ?acc = "acc @ [str_int ?d]"
    let ?rem = "(remainder * 10) mod den"
    have d: "(remainder * 10) div den = ?d"
      using fraction_digit_step[OF assms(1), of "length acc" num] Suc.prems
      by (simp add: mult.commute)
    have r: "?rem = (10 ^ length ?acc * (num mod den)) mod den"
      using remainder_step[of "10 ^ length acc * (num mod den)" den] Suc.prems
      by (simp add: mult.commute mult.left_commute)
    have step: "division_loop (Suc n) remainder den acc = division_loop n ?rem den ?acc"
      using False d by (simp add: Let_def)
    from Suc.IH[OF r] obtain m where m: "m \<le> n"
      "division_loop n ?rem den ?acc = ?acc @ digit_strings num den (length ?acc) m"
      "m = n \<or> (10 ^ (length ?acc + m) * (num mod den)) mod den = 0"
      by (elim exE conjE)
    have s: "str_int ?d = [digit_char (nat ?d)]"
      using fraction_digit_range[OF assms(1), of num "length acc"] by (intro str_int_digit)
    have u: "[length acc..<length acc + Suc m] = length acc # [length ?acc..<length ?acc + m]"
      by (simp add: upt_conv_Cons)
    have e: "?acc @ digit_strings num den (length ?acc) m = acc @ digit_strings num den (length acc) (Suc m)"
      unfolding digit_strings_def u s by simp
    have 1: "Suc m \<le> Suc n" using m(1) by simp
    have 2: "division_loop (Suc n) remainder den acc = acc @ digit_strings num den (length acc) (Suc m)"
      using step m(2) e by simp
    have 3: "Suc m = Suc n \<or> (10 ^ (length acc + Suc m) * (num mod den)) mod den = 0"
      using m(3) by simp
    show ?thesis
      by (rule exI[of _ "Suc m"], intro conjI 1 2 3)
  qed
qed

lemma pad_loop_replicate:
  "pad_loop decimal_digits digits =
     decimal_digits @ replicate (nat (digits + 1 - int (length decimal_digits))) ''0''"
proof (induction decimal_digits digits rule: pad_loop.induct)
  case (1 decimal_digits digits)
  show ?case
  proof (cases "int (length decimal_digits) < digits + 1")
    case True
    then have "nat (digits + 1 - int (length decimal_digits)) =
        Suc (nat (digits + 1 - int (length (decimal_digits @ [''0'']))))" by simp
    then show ?thesis
      using 1[OF True] True by (subst pad_loop.simps) (simp add: replicate_app_Cons_same)
  next
    case False
    then show ?thesis by (subst pad_loop.simps) simp
  qed
qed

lemma concat_replicate_0: "concat (replicate k ''0'') = replicate k CHR ''0''"
  by (induction k) simp_all

lemma concat_digit_strings:
  "concat (digit_strings num den 0 m @ replicate k ''0'') =
     map (\<lambda>j. digit_char (nat (fraction_digit num den j))) [0..<m] @ replicate k CHR ''0''"
  by (simp add: digit_strings_def concat_replicate_0)

lemma division_1_3: "high_precision_division 1 3 10 = Inr ''33333333333333333333''"
  by code_simp

lemma division_1_2: "high_precision_division 1 2 5 = Inr ''500000''"
  by code_simp

text \<open>
  C4. For a non-zero denominator and \<open>digits \<ge> 0\<close>, \<open>high_precision_division\<close> returns a
  string of at least \<open>digits + 1\<close> (and at most \<open>digits + 10\<close>) characters whose character
  at every position \<open>j\<close> is the \<open>j\<close>-th decimal digit of the fractional part of
  \<open>numerator / denominator\<close>, the zeros appended after an early stop included. For 1/3 and
  10 digits the first ten characters are \<open>3333333333\<close>; for 1/2 and 5 digits the result is
  \<open>5\<close> followed by zeros.
\<close>

theorem high_precision_division_digits:
  "(denominator \<noteq> 0 \<longrightarrow> 0 \<le> digits \<longrightarrow>
      (\<exists>s. high_precision_division numerator denominator digits = Inr s \<and>
           digits + 1 \<le> int (length s) \<and> int (length s) \<le> digits + 10 \<and>
           (\<forall>j<length s. s ! j = digit_char (nat (fraction_digit numerator denominator j))))) \<and>
   map_sum id (take 10) (high_precision_division 1 3 10) = Inr ''3333333333'' \<and>
   high_precision_division 1 2 5 = Inr (''5'' @ replicate 5 CHR ''0'')"
proof (intro conjI impI)
  assume nz: "denominator \<noteq> 0" and nn: "0 \<le> digits"
  let ?n = "nat (digits + 10)"
  let ?r0 = "numerator mod denominator"
  let ?f = "\<lambda>j. digit_char (nat (fraction_digit numerator denominator j))"
  have r: "?r0 = (10 ^ length ([] :: string list) * ?r0) mod denominator" by simp
  from division_loop_digits[OF nz r, of ?n]
  obtain m where m: "m \<le> ?n"
    "division_loop ?n ?r0 denominator [] = digit_strings numerator denominator 0 m"
    "m = ?n \<or> (10 ^ m * ?r0) mod denominator = 0"
    by auto
  let ?k = "nat (digits + 1 - int m)"
  let ?s = "map ?f [0..<m] @ replicate ?k CHR ''0''"
  have res: "high_precision_division numerator denominator digits = Inr ?s"
    using nz m(2) concat_digit_strings[of numerator denominator m ?k]
    by (simp add: high_precision_division_def Let_def pad_loop_replicate digit_strings_def)
  have len: "length ?s = m + ?k" by simp
  have lo: "digits + 1 \<le> int (length ?s)" unfolding len by linarith
  have hi: "int (length ?s) \<le> digits + 10" unfolding len using m(1) nn by linarith
  have dig: "?s ! j = ?f j" if j: "j < length ?s" for j
  proof (cases "j < m")
    case True
    then show ?thesis by (simp add: nth_append)
  next
    case False
    with j have k: "0 < ?k" "j - m < ?k" unfolding len by linarith+
    then have "m \<noteq> ?n" using nn by linarith
    with m(3) have z: "(10 ^ m * ?r0) mod denominator = 0" by simp
    have "fraction_digit numerator denominator j = 0"
      using fraction_digit_after_end[OF nz z, of j] False by simp
    then have "?f j = CHR ''0''" by (simp add: digit_char_0)
    moreover have "?s ! j = CHR ''0''" using False k by (simp add: nth_append)
    ultimately show ?thesis by simp
  qed
  show "\<exists>s. high_precision_division numerator denominator digits = Inr s \<and>
           digits + 1 \<le> int (length s) \<and> int (length s) \<le> digits + 10 \<and>
           (\<forall>j<length s. s ! j = digit_char (nat (fraction_digit numerator denominator j)))"
    by (rule exI[of _ ?s], intro conjI res lo hi allI impI dig)
next
  show "map_sum id (take 10) (high_precision_division 1 3 10) = Inr ''3333333333''"
    by (simp add: division_1_3)
next
  show "high_precision_division 1 2 5 = Inr (''5'' @ replicate 5 CHR ''0'')"
    by (simp add: division_1_2 eval_nat_numeral)
qed

theorem high_precision_division_digits_witness:
  "(7::int) \<noteq> 0 \<and> (0::int) \<le> 3 \<and>
   (\<exists>s. high_precision_division 22 7 3 = Inr s \<and>
        3 + 1 \<le> int (length s) \<and> int (length s) \<le> 3 + 10 \<and>
        s ! 0 = digit_char (nat (fraction_digit 22 7 0)) \<and>
        s ! 3 = digit_char (nat (fraction_digit 22 7 3)))"
proof -
  from high_precision_division_digits[of 7 3 22]
  obtain s where s: "high_precision_division 22 7 3 = Inr s"
    "3 + 1 \<le> int (length s)" "int (length s) \<le> 3 + 10"
    "\<forall>j<length s. s ! j = digit_char (nat (fraction_digit 22 7 j))"
    by auto
  from s(2) have "0 < length s" "3 < length s" by linarith+
  with s(4) have "s ! 0 = digit_char (nat (fraction_digit 22 7 0))"
    "s ! 3 = digit_char (nat (fraction_digit 22 7 3))" by blast+
  with s(1,2,3) show ?thesis by auto
qed

section \<open>Rounding the digit string\<close>

lemma digit_char_1: "digit_char (Suc 0) = CHR ''1''"
  by code_simp

lemma is_digit_digit_char: "d < 10 \<Longrightarrow> is_digit (digit_char d)"
  by (simp add: is_digit_def digit_char_def)

lemma digit_value_digit_char: "d < 10 \<Longrightarrow> digit_value (digit_char d) = d"
  by (simp add: digit_value_def digit_char_def)

lemma digit_value_le: "is_digit c \<Longrightarrow> digit_value c \<le> 9"
  unfolding is_digit_def digit_value_def by linarith

lemma is_digit_not_sign: "is_digit c \<Longrightarrow> c \<noteq> CHR ''+'' \<and> c \<noteq> CHR ''-''"
  by (auto simp: is_digit_def)

lemma foldl_digits:
  "foldl (\<lambda>v c. 10 * v + digit_value c) v s = v * 10 ^ length s + digits_value s"
  unfolding digits_value_def
proof (induction s rule: rev_induct)
  case Nil
  then show ?case by simp
next
  case (snoc c s)
  then show ?case by (simp add: algebra_simps)
qed

lemma digits_value_Nil: "digits_value [] = 0"
  by (simp add: digits_value_def)

lemma digits_value_snoc: "digits_value (s @ [c]) = 10 * digits_value s + digit_value c"
  by (simp add: digits_value_def)

lemma digits_value_append: "digits_value (s @ t) = digits_value s * 10 ^ length t + digits_value t"
  using foldl_digits[of "digits_value s" t] by (simp add: digits_value_def)

lemma digit_value_0: "digit_value CHR ''0'' = 0"
  by (simp add: digit_value_def)

lemma is_digit_0: "is_digit CHR ''0''"
  by (simp add: is_digit_def)

lemma digits_value_zeros: "digits_value (replicate k CHR ''0'') = 0"
proof (induction k)
  case 0
  then show ?case by (simp add: digits_value_Nil)
next
  case (Suc k)
  have "replicate (Suc k) CHR ''0'' = replicate k CHR ''0'' @ [CHR ''0'']"
    by (simp add: replicate_append_same)
  then show ?case using Suc by (simp only: digits_value_snoc digit_value_0)
qed

lemma digits_value_bound: "list_all is_digit s \<Longrightarrow> digits_value s < 10 ^ length s"
proof (induction s rule: rev_induct)
  case Nil
  then show ?case by (simp add: digits_value_Nil)
next
  case (snoc c s)
  then have "digits_value s < 10 ^ length s" "digit_value c \<le> 9"
    by (simp_all add: digit_value_le)
  then have "10 * digits_value s + digit_value c < 10 * 10 ^ length s" by linarith
  then show ?case by (simp add: digits_value_snoc)
qed

lemma str_nat_digits: "list_all is_digit (str_nat n) \<and> str_nat n \<noteq> [] \<and> digits_value (str_nat n) = n"
proof (induction n rule: str_nat.induct)
  case (1 n)
  show ?case
  proof (cases "n < 10")
    case True
    then show ?thesis
      by (subst (1 2 3) str_nat.simps)
         (simp add: is_digit_digit_char digits_value_def digit_value_digit_char)
  next
    case False
    have m: "n mod 10 < 10" by simp
    from 1[OF False] False show ?thesis
      by (subst (1 2 3) str_nat.simps)
         (simp add: is_digit_digit_char[OF m] digits_value_snoc digit_value_digit_char[OF m])
  qed
qed

lemma str_nat_length: "n < 10 ^ d \<Longrightarrow> 0 < d \<Longrightarrow> length (str_nat n) \<le> d"
proof (induction n arbitrary: d rule: str_nat.induct)
  case (1 n)
  show ?case
  proof (cases "n < 10")
    case True
    with 1(3) show ?thesis by (subst str_nat.simps) simp
  next
    case False
    obtain e where e: "d = Suc e" using 1(3) by (cases d) auto
    have "e \<noteq> 0" using False 1(2) e by (cases e) auto
    moreover have "n div 10 < 10 ^ e" using 1(2) e by (simp add: div_less_iff_less_mult mult.commute)
    ultimately have "length (str_nat (n div 10)) \<le> e" using 1(1)[OF False] by simp
    with False e show ?thesis by (subst str_nat.simps) simp
  qed
qed

lemma str_nat_power: "str_nat (10 ^ d) = CHR ''1'' # replicate d CHR ''0''"
proof (induction d)
  case 0
  then show ?case by (subst str_nat.simps) (simp add: digit_char_1)
next
  case (Suc d)
  have "\<not> (10::nat) ^ Suc d < 10" by simp
  then have "str_nat (10 ^ Suc d) = str_nat (10 ^ Suc d div 10) @ [digit_char (10 ^ Suc d mod 10)]"
    by (subst str_nat.simps) simp
  also have "\<dots> = str_nat (10 ^ d) @ [CHR ''0'']" by (simp add: digit_char_0)
  finally show ?case using Suc by (simp add: replicate_append_same)
qed

lemma zfill_digits:
  assumes "list_all is_digit s" "s \<noteq> []"
  shows "zfill s width = replicate (width - length s) CHR ''0'' @ s"
proof -
  obtain c rest where s: "s = c # rest" using assms(2) by (cases s) auto
  then have "is_digit c" using assms(1) by simp
  then show ?thesis using is_digit_not_sign[of c] by (simp add: zfill_def s)
qed

lemma int_of_str_digits:
  assumes "list_all is_digit s" "s \<noteq> []"
  shows "int_of_str s = Inr (int (digits_value s))"
  using assms by (simp add: int_of_str_def)

lemma rounding_up:
  assumes d: "list_all is_digit decimal_str" "0 < precision_digits"
      "precision_digits < length decimal_str"
    and up: "5 \<le> digit_value (decimal_str ! precision_digits)"
  shows "rounding decimal_str precision_digits =
     Inr (let s = zfill (str_nat (Suc (digits_value (take precision_digits decimal_str)))) precision_digits
          in if length s > precision_digits then tl s else s)"
proof -
  have c: "is_digit (decimal_str ! precision_digits)"
    using d(1,3) by (simp add: list_all_length)
  have r: "int_of_str [decimal_str ! precision_digits] = Inr (int (digit_value (decimal_str ! precision_digits)))"
    using c by (simp add: int_of_str_def digits_value_def)
  have t: "list_all is_digit (take precision_digits decimal_str)" "take precision_digits decimal_str \<noteq> []"
    using d by (auto simp: list_all_length)
  have s: "str_int (int (digits_value (take precision_digits decimal_str)) + 1) =
      str_nat (Suc (digits_value (take precision_digits decimal_str)))"
    by (simp add: str_int_def nat_add_distrib)
  show ?thesis
    using d(3) up by (simp add: rounding_def r int_of_str_digits[OF t] s Let_def)
qed

lemma rounding_down:
  assumes d: "list_all is_digit decimal_str" "precision_digits < length decimal_str"
    and down: "\<not> 5 \<le> digit_value (decimal_str ! precision_digits)"
  shows "rounding decimal_str precision_digits = Inr (take precision_digits decimal_str)"
proof -
  have c: "is_digit (decimal_str ! precision_digits)"
    using d by (simp add: list_all_length)
  have r: "int_of_str [decimal_str ! precision_digits] = Inr (int (digit_value (decimal_str ! precision_digits)))"
    using c by (simp add: int_of_str_def digits_value_def)
  show ?thesis
    using d(2) down by (simp add: rounding_def r Let_def)
qed

lemma rounding_all_nines: "rounding ''999995'' 5 = Inr ''00000''"
proof -
  have a: "list_all is_digit ''999995''" by (simp add: is_digit_def)
  have b: "5 \<le> digit_value (''999995'' ! 5)" by (simp add: digit_value_def)
  have v: "Suc (digits_value (take 5 ''999995'')) = 10 ^ 5"
    by (simp add: digits_value_def digit_value_def)
  have "rounding ''999995'' 5 =
     Inr (let s = zfill (str_nat (Suc (digits_value (take 5 ''999995'')))) 5
          in if length s > 5 then tl s else s)"
    by (rule rounding_up[OF a _ _ b]) simp_all
  then show ?thesis
    unfolding v str_nat_power by (simp add: zfill_def Let_def eval_nat_numeral)
qed

lemma rounding_no_carry: "rounding ''000001'' 5 = Inr ''00000''"
proof -
  have a: "list_all is_digit ''000001''" by (simp add: is_digit_def)
  have b: "\<not> 5 \<le> digit_value (''000001'' ! 5)" by (simp add: digit_value_def)
  have "rounding ''000001'' 5 = Inr (take 5 ''000001'')"
    by (rule rounding_down[OF a _ b]) simp
  then show ?thesis by simp
qed

text \<open>
  C5 (as amended). For a string of digits longer than \<open>precision_digits > 0\<close>, the rounding
  returns a string of exactly \<open>precision_digits\<close> digits whose value is the value of the
  first \<open>precision_digits\<close> digits, plus one when the next digit is 5 or more, modulo
  \<open>10 ^ precision_digits\<close>: a carry out of the most significant digit is dropped, and the
  string is the only result.
\<close>

theorem rounding_drops_carry:
  assumes d: "list_all is_digit decimal_str" "0 < precision_digits"
      "precision_digits < length decimal_str"
  shows "\<exists>r. rounding decimal_str precision_digits = Inr r \<and> length r = precision_digits \<and>
           list_all is_digit r \<and>
           digits_value r =
             (digits_value (take precision_digits decimal_str) +
              (if 5 \<le> digit_value (decimal_str ! precision_digits) then 1 else 0))
             mod 10 ^ precision_digits"
proof -
  let ?p = "take precision_digits decimal_str"
  let ?v = "digits_value ?p"
  have t: "list_all is_digit ?p" "length ?p = precision_digits"
    using d by (auto simp: list_all_length)
  have v: "?v < 10 ^ precision_digits" using digits_value_bound[OF t(1)] t(2) by simp
  show ?thesis
  proof (cases "5 \<le> digit_value (decimal_str ! precision_digits)")
    case False
    have "rounding decimal_str precision_digits = Inr ?p"
      using rounding_down[OF d(1,3) False] .
    then show ?thesis using t v False by simp
  next
    case True
    let ?s = "str_nat (Suc ?v)"
    let ?z = "zfill ?s precision_digits"
    have sd: "list_all is_digit ?s" "?s \<noteq> []" "digits_value ?s = Suc ?v"
      using str_nat_digits[of "Suc ?v"] by simp_all
    have z: "?z = replicate (precision_digits - length ?s) CHR ''0'' @ ?s"
      using zfill_digits[OF sd(1,2)] .
    have res: "rounding decimal_str precision_digits =
        Inr (if length ?z > precision_digits then tl ?z else ?z)"
      using rounding_up[OF d True] by (simp add: Let_def)
    show ?thesis
    proof (cases "Suc ?v < 10 ^ precision_digits")
      case small: True
      have len: "length ?s \<le> precision_digits" using str_nat_length[OF small d(2)] .
      then have lz: "length ?z = precision_digits" unfolding z by simp
      have dz: "list_all is_digit ?z"
        unfolding z using sd(1) by (auto simp: list_all_iff is_digit_0)
      have vz: "digits_value ?z = Suc ?v"
        unfolding z by (simp add: digits_value_append digits_value_zeros sd(3))
      have "rounding decimal_str precision_digits = Inr ?z" using res lz by simp
      then show ?thesis using lz dz vz small True by simp
    next
      case False
      with v have e: "Suc ?v = 10 ^ precision_digits" by linarith
      have s1: "?s = CHR ''1'' # replicate precision_digits CHR ''0''"
        unfolding e by (rule str_nat_power)
      have z1: "?z = CHR ''1'' # replicate precision_digits CHR ''0''"
        unfolding z unfolding s1 by simp
      have "rounding decimal_str precision_digits = Inr (replicate precision_digits CHR ''0'')"
        unfolding res z1 by simp
      moreover have "(?v + 1) mod 10 ^ precision_digits = 0" using e by simp
      ultimately show ?thesis using True by (auto simp: digits_value_zeros list_all_iff is_digit_0)
    qed
  qed
qed

theorem rounding_drops_carry_witness:
  "list_all is_digit ''141596'' \<and> (0::nat) < 5 \<and> 5 < length ''141596'' \<and>
   (\<exists>r. rounding ''141596'' 5 = Inr r \<and> length r = 5 \<and> list_all is_digit r \<and>
       digits_value r =
         (digits_value (take 5 ''141596'') + (if 5 \<le> digit_value (''141596'' ! 5) then 1 else 0))
         mod 10 ^ 5)"
proof -
  have a: "list_all is_digit ''141596''" by (simp add: is_digit_def)
  have b: "(0::nat) < 5" "5 < length ''141596''" by simp_all
  from rounding_drops_carry[OF a b] a b show ?thesis by blast
qed

text \<open>
  The digits \<open>999995\<close> round to \<open>00000\<close>, the same result as for the digits \<open>000001\<close>:
  nothing tells the caller that a carry went into the integer part.
\<close>

theorem rounding_drops_carry_counterexample:
  "rounding ''999995'' 5 = Inr ''00000'' \<and> rounding ''000001'' 5 = Inr ''00000''"
  using rounding_all_nines rounding_no_carry by simp

end
